theory Spec2Isabelle
  imports Complex_Main "HOL-Library.Word" "HOL-Library.Multiset" "HOL-Library.Log_Nat"
begin

section \<open>Strings\<close>

text \<open>
  A JavaScript string is a sequence of UTF-16 code units; \<^verbatim>\<open>length\<close>,
  \<^verbatim>\<open>substring\<close> and \<^verbatim>\<open>trim\<close> all work on code units. An ASCII
  literal of the source is embedded with \<open>js\<close>.
\<close>

type_synonym code_unit = "16 word"
type_synonym jsstring = "code_unit list"

definition js :: "string \<Rightarrow> jsstring" where
  "js s = map (\<lambda>c. of_nat (of_char c)) s"

text \<open>
  \<^verbatim>\<open>String.prototype.trim\<close> strips the code units of ECMAScript's WhiteSpace and
  LineTerminator productions from both ends.
\<close>

definition isWhiteSpace :: "code_unit \<Rightarrow> bool" where
  "isWhiteSpace c =
     (c \<in> set [0x0009, 0x000A, 0x000B, 0x000C, 0x000D, 0x0020, 0x00A0, 0x1680,
                0x2028, 0x2029, 0x202F, 0x205F, 0x3000, 0xFEFF]
      \<or> (0x2000 \<le> c \<and> c \<le> 0x200A))"

definition trim :: "jsstring \<Rightarrow> jsstring" where
  "trim s = rev (dropWhile isWhiteSpace (rev (dropWhile isWhiteSpace s)))"

text \<open>
  The decimal rendering of a non-negative integer, as a template literal
  \<^verbatim>\<open>`${n}`\<close> produces it (below \<open>10^21\<close>, where JavaScript switches to
  exponent notation; an array length or a millisecond timestamp never gets there).
\<close>

definition digit :: "nat \<Rightarrow> code_unit" where
  "digit d = of_nat (48 + d)"

function number_toString :: "nat \<Rightarrow> jsstring" where
  "number_toString n =
     (if n < 10 then [digit n] else number_toString (n div 10) @ [digit (n mod 10)])"
  by pat_completeness auto
termination
  by (relation "measure (\<lambda>n. n)") auto

declare number_toString.simps [simp del]

section \<open>The tree of nodes\<close>

text \<open>
  \<^verbatim>\<open>interface FlowchartNode { id; name; children; isEditing; childrenVisible }\<close>.
  The selector of \<^verbatim>\<open>id\<close> is \<open>id_n\<close>, since \<open>id\<close> is the identity function of HOL.
\<close>

datatype node = Node (id_n: jsstring) (name: jsstring) (children: "node list")
  (isEditing: bool) (childrenVisible: bool)

text \<open>
  \<^verbatim>\<open>Partial<FlowchartNode>\<close>: every field may be present or absent.
\<close>

record updates =
  u_id :: "jsstring option"
  u_name :: "jsstring option"
  u_children :: "node list option"
  u_isEditing :: "bool option"
  u_childrenVisible :: "bool option"

definition no_updates :: updates where
  "no_updates = \<lparr>u_id = None, u_name = None, u_children = None, u_isEditing = None,
     u_childrenVisible = None\<rparr>"

text \<open>The object spread \<^verbatim>\<open>{ ...node, ...updates }\<close>: a field of the patch wins.\<close>

definition spread :: "node \<Rightarrow> updates \<Rightarrow> node" where
  "spread n u = Node
     (case u_id u of None \<Rightarrow> id_n n | Some x \<Rightarrow> x)
     (case u_name u of None \<Rightarrow> name n | Some x \<Rightarrow> x)
     (case u_children u of None \<Rightarrow> children n | Some x \<Rightarrow> x)
     (case u_isEditing u of None \<Rightarrow> isEditing n | Some x \<Rightarrow> x)
     (case u_childrenVisible u of None \<Rightarrow> childrenVisible n | Some x \<Rightarrow> x)"

fun updateNodeRecursive :: "jsstring \<Rightarrow> updates \<Rightarrow> node \<Rightarrow> node" where
  "updateNodeRecursive nodeId upd (Node i nm cs e v) =
     (if i = nodeId then spread (Node i nm cs e v) upd
      else Node i nm (map (updateNodeRecursive nodeId upd) cs) e v)"

text \<open>\<^verbatim>\<open>updateNode\<close> stores the rebuilt tree as the new flowchart.\<close>

definition updateNode :: "jsstring \<Rightarrow> updates \<Rightarrow> node \<Rightarrow> node" where
  "updateNode nodeId upd flowchart = updateNodeRecursive nodeId upd flowchart"

text \<open>
  \<^verbatim>\<open>`node-${Date.now()}-${Math.random().toString(36).substr(2, 9)}`\<close>. The clock
  and the random generator are inputs: \<open>now\<close> is the value of \<^verbatim>\<open>Date.now()\<close>
  and \<open>random36\<close> the string \<^verbatim>\<open>Math.random().toString(36)\<close>, of which
  \<^verbatim>\<open>substr(2, 9)\<close> keeps at most nine code units after the first two.
\<close>

definition childId :: "nat \<Rightarrow> jsstring \<Rightarrow> jsstring" where
  "childId now random36 =
     js ''node-'' @ number_toString now @ js ''-'' @ take 9 (drop 2 random36)"

fun addChildRecursive :: "jsstring \<Rightarrow> jsstring \<Rightarrow> node \<Rightarrow> node" where
  "addChildRecursive parentId cid (Node i nm cs e v) =
     (if i = parentId then
        Node i nm (cs @ [Node cid (js ''Button '' @ number_toString (length cs + 1)) []
                          False True]) e v
      else Node i nm (map (addChildRecursive parentId cid) cs) e v)"

definition addChild :: "jsstring \<Rightarrow> nat \<Rightarrow> jsstring \<Rightarrow> node \<Rightarrow> node" where
  "addChild parentId now random36 flowchart =
     addChildRecursive parentId (childId now random36) flowchart"

text \<open>The initial state of \<^verbatim>\<open>Index\<close>.\<close>

definition initial :: node where
  "initial = Node (js ''root'') (js ''Start'') [] False True"

text \<open>All ids of a tree, in depth-first order.\<close>

fun ids :: "node \<Rightarrow> jsstring list" where
  "ids (Node i nm cs e v) = i # concat (map ids cs)"

section \<open>Event handlers of a button\<close>

text \<open>
  A \<^verbatim>\<open>FlowchartButton\<close> holds its \<open>node\<close> (a prop), and the edit buffer
  \<open>editValue\<close> (its own state); the flowchart is the state of \<^verbatim>\<open>Index\<close>, reached
  through \<^verbatim>\<open>onUpdateNode\<close>. A handler returns the new flowchart and the new edit buffer.
\<close>

definition handleDoubleClick :: "node \<Rightarrow> jsstring \<Rightarrow> node \<Rightarrow> node \<times> jsstring" where
  "handleDoubleClick nd editValue flowchart =
     (updateNode (id_n nd) (no_updates\<lparr>u_isEditing := Some True\<rparr>) flowchart, name nd)"

definition handleSaveEdit :: "node \<Rightarrow> jsstring \<Rightarrow> node \<Rightarrow> node \<times> jsstring" where
  "handleSaveEdit nd editValue flowchart =
     (if trim editValue \<noteq> [] then
        (updateNode (id_n nd)
           (no_updates\<lparr>u_name := Some (trim editValue), u_isEditing := Some False\<rparr>) flowchart,
         editValue)
      else
        (updateNode (id_n nd) (no_updates\<lparr>u_isEditing := Some False\<rparr>) flowchart, name nd))"

definition handleCancelEdit :: "node \<Rightarrow> jsstring \<Rightarrow> node \<Rightarrow> node \<times> jsstring" where
  "handleCancelEdit nd editValue flowchart =
     (updateNode (id_n nd) (no_updates\<lparr>u_isEditing := Some False\<rparr>) flowchart, name nd)"

definition handleKeyPress :: "jsstring \<Rightarrow> node \<Rightarrow> jsstring \<Rightarrow> node \<Rightarrow> node \<times> jsstring" where
  "handleKeyPress key nd editValue flowchart =
     (if key = js ''Enter'' then handleSaveEdit nd editValue flowchart
      else if key = js ''Escape'' then handleCancelEdit nd editValue flowchart
      else (flowchart, editValue))"

definition toggleChildrenVisibility :: "node \<Rightarrow> node \<Rightarrow> node" where
  "toggleChildrenVisibility nd flowchart =
     updateNode (id_n nd) (no_updates\<lparr>u_childrenVisible := Some (\<not> childrenVisible nd)\<rparr>)
       flowchart"

section \<open>Layout of a button\<close>

text \<open>
  Widths are in rem, and the source computes them in double precision:
  \<^verbatim>\<open>Math.max(baseWidth, text.length * charWidth + padding)\<close>. Every value of that
  computation is a multiple of \<open>2\<^sup>-\<^sup>5\<^sup>2\<close>: the double nearest to \<open>0.7\<close> is
  \<open>3152519739159347 / 2\<^sup>5\<^sup>2\<close>, the length is an integer, and rounding a multiple of
  \<open>2\<^sup>-\<^sup>5\<^sup>2\<close> to 53 significant bits gives a multiple of \<open>2\<^sup>-\<^sup>5\<^sup>2\<close>. So a double is
  kept as its number of units of \<open>2\<^sup>-\<^sup>5\<^sup>2\<close>, a natural number, and \<open>round53\<close> is the
  rounding of every operation: to the nearest number with 53 significant bits, a tie to
  the one with an even last bit. The largest exponent of a double is not modelled; the
  widths of strings that JavaScript can hold (fewer than \<open>2\<^sup>5\<^sup>3\<close> code units) are far
  below it.
\<close>

definition round53 :: "nat \<Rightarrow> nat" where
  "round53 m =
     (let b = floorlog 2 m in
      if b \<le> 53 then m
      else (let s = b - 53; q = m div 2 ^ s; r = m mod 2 ^ s; h = 2 ^ (s - 1)
            in (if r < h \<or> (r = h \<and> even q) then q else q + 1) * 2 ^ s))"

text \<open>The real number that a count of units stands for.\<close>

definition rem_of_units :: "nat \<Rightarrow> real" where
  "rem_of_units u = real u / 2 ^ 52"

text \<open>
  \<open>round53 (length text)\<close> is the number \<^verbatim>\<open>text.length\<close>, the next \<open>round53\<close> the
  product with \<open>charWidth\<close>, the last one the sum with \<open>padding\<close>.
\<close>

definition getButtonWidth :: "jsstring \<Rightarrow> real" where
  "getButtonWidth text =
     (let baseWidth = 8 * 2 ^ 52; charWidth = 3152519739159347; padding = 4 * 2 ^ 52
      in rem_of_units
           (max baseWidth (round53 (round53 (round53 (length text) * charWidth) + padding))))"

definition getDisplayText :: "bool \<Rightarrow> jsstring \<Rightarrow> jsstring" where
  "getDisplayText truncateText text =
     (if \<not> truncateText \<or> length text \<le> 20 then text else take 20 text @ js ''...'')"

definition buttonWidth :: "bool \<Rightarrow> node \<Rightarrow> jsstring \<Rightarrow> real" where
  "buttonWidth truncateText nd editValue =
     getButtonWidth (if isEditing nd then editValue
                     else if truncateText then getDisplayText truncateText (name nd)
                     else name nd)"

definition displayText :: "bool \<Rightarrow> node \<Rightarrow> jsstring" where
  "displayText truncateText nd = getDisplayText truncateText (name nd)"

definition hasChildren :: "node \<Rightarrow> bool" where
  "hasChildren nd = (length (children nd) > 0)"

text \<open>
  What one \<^verbatim>\<open>FlowchartButton\<close> renders. The horizontal connector has a width and one
  vertical line per child, at \<^verbatim>\<open>left: index * 14\<close>; the children are rendered by the
  same component, one level deeper, in the order of the array.
\<close>

record connector =
  width :: nat
  lefts :: "nat list"

record child_row =
  horizontal :: "connector option"
  row :: "(node \<times> nat) list"

datatype box = Input jsstring real | Button jsstring real "jsstring option"

record rendered =
  line_from_parent :: bool
  eye_toggle :: bool
  main :: box
  below :: "child_row option"

definition childRow :: "node \<Rightarrow> nat \<Rightarrow> child_row option" where
  "childRow nd depth =
     (if hasChildren nd \<and> childrenVisible nd then
        Some \<lparr>horizontal =
                 (if length (children nd) > 1 then
                    Some \<lparr>width = (length (children nd) - 1) * 14 + 6,
                          lefts = map (\<lambda>index. index * 14) [0..<length (children nd)]\<rparr>
                  else None),
               row = map (\<lambda>child. (child, depth + 1)) (children nd)\<rparr>
      else None)"

definition FlowchartButton :: "node \<Rightarrow> nat \<Rightarrow> bool \<Rightarrow> jsstring \<Rightarrow> rendered" where
  "FlowchartButton nd depth truncateText editValue =
     \<lparr>line_from_parent = (depth > 0),
      eye_toggle = hasChildren nd,
      main = (if isEditing nd then Input editValue (buttonWidth truncateText nd editValue)
              else Button (displayText truncateText nd) (buttonWidth truncateText nd editValue)
                     (if truncateText \<and> length (name nd) > 20 then Some (name nd) else None)),
      below = childRow nd depth\<rparr>"

section \<open>Observations on trees\<close>

text \<open>The first node with a given id, in the depth-first order of the two operations.\<close>

fun findNode :: "jsstring \<Rightarrow> node \<Rightarrow> node option"
  and findFirst :: "jsstring \<Rightarrow> node list \<Rightarrow> node option" where
  "findNode i (Node j nm cs e v) = (if j = i then Some (Node j nm cs e v) else findFirst i cs)"
| "findFirst i [] = None"
| "findFirst i (c # cs) = (case findNode i c of Some n \<Rightarrow> Some n | None \<Rightarrow> findFirst i cs)"

text \<open>All nodes of a tree, in depth-first order.\<close>

fun nodes :: "node \<Rightarrow> node list" where
  "nodes (Node i nm cs e v) = Node i nm cs e v # concat (map nodes cs)"

text \<open>The shape of a tree: how many children every node has, and in which order.\<close>

datatype shape = Shape "shape list"

fun shape_of :: "node \<Rightarrow> shape" where
  "shape_of (Node i nm cs e v) = Shape (map shape_of cs)"

text \<open>The content of the nodes (all fields but the children), in depth-first order.\<close>

fun contents :: "node \<Rightarrow> (jsstring \<times> jsstring \<times> bool \<times> bool) list" where
  "contents (Node i nm cs e v) = (i, nm, e, v) # concat (map contents cs)"

definition content :: "node \<Rightarrow> jsstring \<times> jsstring \<times> bool \<times> bool" where
  "content nd = (id_n nd, name nd, isEditing nd, childrenVisible nd)"

text \<open>The content that the spread with a patch gives to a node with the content \<open>c\<close>.\<close>

definition patch_content ::
    "updates \<Rightarrow> jsstring \<times> jsstring \<times> bool \<times> bool \<Rightarrow> jsstring \<times> jsstring \<times> bool \<times> bool" where
  "patch_content u c =
     (case c of (i, nm, e, v) \<Rightarrow>
        (case u_id u of None \<Rightarrow> i | Some x \<Rightarrow> x,
         case u_name u of None \<Rightarrow> nm | Some x \<Rightarrow> x,
         case u_isEditing u of None \<Rightarrow> e | Some x \<Rightarrow> x,
         case u_childrenVisible u of None \<Rightarrow> v | Some x \<Rightarrow> x))"

text \<open>The number of places, in depth-first order, at which two trees differ in content.\<close>

definition changed :: "node \<Rightarrow> node \<Rightarrow> nat" where
  "changed t t' = length (filter (\<lambda>(a, b). a \<noteq> b) (zip (contents t) (contents t')))"

text \<open>
  \<open>one_appended p cid t t'\<close>: the trees are equal except at one node with id \<open>p\<close>, which
  in \<open>t'\<close> has one more child, at the end: a leaf with id \<open>cid\<close>, named after the number
  of children, not editing, its children visible.
\<close>

definition new_leaf :: "jsstring \<Rightarrow> nat \<Rightarrow> node" where
  "new_leaf cid n = Node cid (js ''Button '' @ number_toString (n + 1)) [] False True"

fun one_appended :: "jsstring \<Rightarrow> jsstring \<Rightarrow> node \<Rightarrow> node \<Rightarrow> bool"
  and one_appended_in :: "jsstring \<Rightarrow> jsstring \<Rightarrow> node list \<Rightarrow> node list \<Rightarrow> bool" where
  "one_appended p cid (Node i nm cs e v) (Node i' nm' cs' e' v') =
     (i' = i \<and> nm' = nm \<and> e' = e \<and> v' = v \<and>
      (if i = p then cs' = cs @ [new_leaf cid (length cs)] else one_appended_in p cid cs cs'))"
| "one_appended_in p cid (c # cs) (c' # cs') =
     ((one_appended p cid c c' \<and> cs' = cs) \<or> (c' = c \<and> one_appended_in p cid cs cs'))"
| "one_appended_in p cid [] cs' = False"
| "one_appended_in p cid (c # cs) [] = False"

text \<open>A run of \<^verbatim>\<open>addChild\<close> calls: the parent, the clock and the random string of each.\<close>

fun addChildren :: "(jsstring \<times> nat \<times> jsstring) list \<Rightarrow> node \<Rightarrow> node" where
  "addChildren [] flowchart = flowchart"
| "addChildren ((parentId, now, random36) # calls) flowchart =
     addChildren calls (addChild parentId now random36 flowchart)"

section \<open>Object identity\<close>

text \<open>
  Whether two nodes are the same object is not visible in a \<open>node\<close>. Here every node
  object carries its address \<open>ref\<close>. No object is ever written to after its creation, so
  a tree of addressed objects stands for the part of the heap that the root reaches. An
  object literal allocates the next free address: the operations take it and return the
  one after their last allocation. The arrays of children are kept as lists of objects,
  their own addresses are not modelled.

  The object literals of the source are \<^verbatim>\<open>{ ...node, ...updates }\<close> and
  \<^verbatim>\<open>{ ...node, children: node.children.map(updateNodeRecursive) }\<close> in
  \<^verbatim>\<open>updateNodeRecursive\<close>, and in \<^verbatim>\<open>addChildRecursive\<close> the new parent
  \<^verbatim>\<open>{ ...node, children: [...node.children, {...}] }\<close>, the new leaf inside it, and
  \<^verbatim>\<open>{ ...node, children: node.children.map(addChildRecursive) }\<close>. A spread copies
  the fields, so the elements of a copied \<^verbatim>\<open>children\<close> array are the old objects.
\<close>

datatype rnode = RNode (ref: nat) (r_id: jsstring) (r_name: jsstring)
  (r_children: "rnode list") (r_isEditing: bool) (r_childrenVisible: bool)

record rupdates =
  ru_id :: "jsstring option"
  ru_name :: "jsstring option"
  ru_children :: "rnode list option"
  ru_isEditing :: "bool option"
  ru_childrenVisible :: "bool option"

definition rspread :: "nat \<Rightarrow> rnode \<Rightarrow> rupdates \<Rightarrow> rnode" where
  "rspread a n u = RNode a
     (case ru_id u of None \<Rightarrow> r_id n | Some x \<Rightarrow> x)
     (case ru_name u of None \<Rightarrow> r_name n | Some x \<Rightarrow> x)
     (case ru_children u of None \<Rightarrow> r_children n | Some x \<Rightarrow> x)
     (case ru_isEditing u of None \<Rightarrow> r_isEditing n | Some x \<Rightarrow> x)
     (case ru_childrenVisible u of None \<Rightarrow> r_childrenVisible n | Some x \<Rightarrow> x)"

fun updateNodeRecursive_ref :: "jsstring \<Rightarrow> rupdates \<Rightarrow> rnode \<Rightarrow> nat \<Rightarrow> rnode \<times> nat"
  and map_updateNodeRecursive_ref ::
    "jsstring \<Rightarrow> rupdates \<Rightarrow> rnode list \<Rightarrow> nat \<Rightarrow> rnode list \<times> nat" where
  "updateNodeRecursive_ref nodeId upd (RNode a i nm cs e v) free =
     (if i = nodeId then (rspread free (RNode a i nm cs e v) upd, Suc free)
      else (case map_updateNodeRecursive_ref nodeId upd cs (Suc free) of
              (cs', free') \<Rightarrow> (RNode free i nm cs' e v, free')))"
| "map_updateNodeRecursive_ref nodeId upd [] free = ([], free)"
| "map_updateNodeRecursive_ref nodeId upd (c # cs) free =
     (case updateNodeRecursive_ref nodeId upd c free of
        (c', free') \<Rightarrow>
          (case map_updateNodeRecursive_ref nodeId upd cs free' of
             (cs', free'') \<Rightarrow> (c' # cs', free'')))"

fun addChildRecursive_ref :: "jsstring \<Rightarrow> jsstring \<Rightarrow> rnode \<Rightarrow> nat \<Rightarrow> rnode \<times> nat"
  and map_addChildRecursive_ref ::
    "jsstring \<Rightarrow> jsstring \<Rightarrow> rnode list \<Rightarrow> nat \<Rightarrow> rnode list \<times> nat" where
  "addChildRecursive_ref parentId cid (RNode a i nm cs e v) free =
     (if i = parentId then
        (RNode free i nm
           (cs @ [RNode (Suc free) cid (js ''Button '' @ number_toString (length cs + 1)) []
                    False True]) e v,
         Suc (Suc free))
      else (case map_addChildRecursive_ref parentId cid cs (Suc free) of
              (cs', free') \<Rightarrow> (RNode free i nm cs' e v, free')))"
| "map_addChildRecursive_ref parentId cid [] free = ([], free)"
| "map_addChildRecursive_ref parentId cid (c # cs) free =
     (case addChildRecursive_ref parentId cid c free of
        (c', free') \<Rightarrow>
          (case map_addChildRecursive_ref parentId cid cs free' of
             (cs', free'') \<Rightarrow> (c' # cs', free'')))"

text \<open>The addresses of all objects of a tree, and the tree without them.\<close>

fun refs :: "rnode \<Rightarrow> nat list" where
  "refs (RNode a i nm cs e v) = a # concat (map refs cs)"

fun erase :: "rnode \<Rightarrow> node" where
  "erase (RNode a i nm cs e v) = Node i nm (map erase cs) e v"

definition erase_updates :: "rupdates \<Rightarrow> updates" where
  "erase_updates u = \<lparr>u_id = ru_id u, u_name = ru_name u,
     u_children = map_option (map erase) (ru_children u), u_isEditing = ru_isEditing u,
     u_childrenVisible = ru_childrenVisible u\<rparr>"

text \<open>
  The objects strictly below the nodes that the search stops at: the children of a node
  with the id looked for, and all their descendants.
\<close>

fun beneath :: "jsstring \<Rightarrow> rnode \<Rightarrow> nat list" where
  "beneath i (RNode a j nm cs e v) =
     (if j = i then concat (map refs cs) else concat (map (beneath i) cs))"

definition no_rupdates :: rupdates where
  "no_rupdates = \<lparr>ru_id = None, ru_name = None, ru_children = None, ru_isEditing = None,
     ru_childrenVisible = None\<rparr>"

section \<open>Examples\<close>

text \<open>
  A root with the children \<open>a\<close> and \<open>b\<close>, where \<open>a\<close> has the child \<open>c\<close>: four
  objects at the addresses 0 to 3, so that 4 is the next free address.
\<close>

definition family :: rnode where
  "family = RNode 0 (js ''root'') (js ''Start'')
     [RNode 1 (js ''a'') (js ''Button 1'')
        [RNode 3 (js ''c'') (js ''Button 1'') [] False True] False True,
      RNode 2 (js ''b'') (js ''Button 2'') [] False True] False True"


text \<open>The flowchart after one and after two clicks on the plus button of the root.\<close>

definition one_button :: node where
  "one_button = addChild (js ''root'') 1700000000000 (js ''0.k3j9x2m5qp7'') initial"

definition two_buttons :: node where
  "two_buttons = addChild (js ''root'') 1700000000250 (js ''0.z8w1c4v6bn2'') one_button"

text \<open>The first button, and the flowchart after a double click on it.\<close>

definition first_button :: node where
  "first_button =
     Node (js ''node-1700000000000-k3j9x2m5q'') (js ''Button 1'') [] False True"

definition edited_button :: node where
  "edited_button =
     Node (js ''node-1700000000000-k3j9x2m5q'') (js ''Button 1'') [] True True"

definition being_edited :: node where
  "being_edited = fst (handleDoubleClick first_button (js ''Button 1'') one_button)"

definition long_name :: jsstring where
  "long_name = js ''A label with 30 code units...!''"

section \<open>Evaluating the examples\<close>

lemma one_button_eq:
  "one_button = Node (js ''root'') (js ''Start'')
     [Node (js ''node-1700000000000-k3j9x2m5q'') (js ''Button 1'') [] False True] False True"
  by (simp add: one_button_def addChild_def childId_def initial_def number_toString.simps
      js_def digit_def)

lemma two_buttons_eq:
  "two_buttons = Node (js ''root'') (js ''Start'')
     [Node (js ''node-1700000000000-k3j9x2m5q'') (js ''Button 1'') [] False True,
      Node (js ''node-1700000000250-z8w1c4v6b'') (js ''Button 2'') [] False True] False True"
  by (simp add: two_buttons_def one_button_eq addChild_def childId_def number_toString.simps
      js_def digit_def)

section \<open>A missing id\<close>

lemma updateNodeRecursive_absent:
  "nodeId \<notin> set (ids t) \<Longrightarrow> updateNodeRecursive nodeId upd t = t"
  by (induction t) (auto intro: map_idI)

lemma addChildRecursive_absent:
  "parentId \<notin> set (ids t) \<Longrightarrow> addChildRecursive parentId cid t = t"
  by (induction t) (auto intro: map_idI)

text \<open>
  Claim C5. When no node of the tree has the id, \<^verbatim>\<open>updateNode\<close> and \<^verbatim>\<open>addChild\<close>
  store a tree equal to the old one: every field of every node, every list of children and
  so every edge is as before. Nothing is raised.
\<close>

theorem missing_id_no_op:
  "nodeId \<notin> set (ids t) \<Longrightarrow>
     updateNode nodeId upd t = t \<and> addChild nodeId now random36 t = t"
  by (simp add: updateNode_def addChild_def updateNodeRecursive_absent
      addChildRecursive_absent)

theorem missing_id_no_op_witness:
  "js ''gone'' \<notin> set (ids two_buttons) \<and>
   updateNode (js ''gone'') (no_updates\<lparr>u_name := Some (js ''x'')\<rparr>) two_buttons = two_buttons \<and>
   addChild (js ''gone'') 1700000000999 (js ''0.abc'') two_buttons = two_buttons"
proof -
  have absent: "js ''gone'' \<notin> set (ids two_buttons)"
    by (simp add: two_buttons_eq js_def)
  from missing_id_no_op [OF absent] absent show ?thesis by simp
qed

section \<open>Committing and cancelling an edit\<close>

lemma id_n_nodes: "nd \<in> set (nodes t) \<Longrightarrow> id_n nd \<in> set (ids t)"
  by (induction t) auto

lemma findNode_absent:
  "i \<notin> set (ids t) \<Longrightarrow> findNode i t = None"
  "i \<notin> set (concat (map ids cs)) \<Longrightarrow> findFirst i cs = None"
  by (induction i t and i cs rule: findNode_findFirst.induct) auto

lemma findFirst_distinct:
  assumes "\<And>c. c \<in> set cs \<Longrightarrow> distinct (ids c) \<Longrightarrow> nd \<in> set (nodes c) \<Longrightarrow>
             findNode (id_n nd) c = Some nd"
    and "distinct (concat (map ids cs))" and "c \<in> set cs" and "nd \<in> set (nodes c)"
  shows "findFirst (id_n nd) cs = Some nd"
  using assms
proof (induction cs)
  case Nil
  then show ?case by simp
next
  case (Cons c0 cs)
  show ?case
  proof (cases "nd \<in> set (nodes c0)")
    case True
    with Cons.prems show ?thesis by simp
  next
    case False
    with Cons.prems have in_rest: "c \<in> set cs" by auto
    then have "id_n nd \<in> set (concat (map ids cs))"
      using Cons.prems(4) id_n_nodes by auto
    with Cons.prems(2) have "id_n nd \<notin> set (ids c0)" by auto
    then have "findNode (id_n nd) c0 = None" by (rule findNode_absent)
    moreover have "findFirst (id_n nd) cs = Some nd"
      using Cons.IH Cons.prems in_rest by simp
    ultimately show ?thesis by simp
  qed
qed

lemma findNode_distinct:
  "distinct (ids t) \<Longrightarrow> nd \<in> set (nodes t) \<Longrightarrow> findNode (id_n nd) t = Some nd"
proof (induction t)
  case (Node i nm cs e v)
  show ?case
  proof (cases "nd = Node i nm cs e v")
    case True
    then show ?thesis by simp
  next
    case False
    with Node.prems obtain c where c: "c \<in> set cs" "nd \<in> set (nodes c)" by auto
    then have "id_n nd \<in> set (concat (map ids cs))" using id_n_nodes by auto
    with Node.prems(1) have "id_n nd \<noteq> i" by auto
    moreover have "findFirst (id_n nd) cs = Some nd"
      using Node.IH Node.prems(1) c by (intro findFirst_distinct[of cs nd c]) auto
    ultimately show ?thesis by simp
  qed
qed

lemma findNode_updateNodeRecursive:
  "u_id u = None \<Longrightarrow>
     findNode i (updateNodeRecursive i u t) = map_option (\<lambda>n. spread n u) (findNode i t)"
  "u_id u = None \<Longrightarrow>
     findFirst i (map (updateNodeRecursive i u) cs) =
       map_option (\<lambda>n. spread n u) (findFirst i cs)"
  by (induction i t and i cs rule: findNode_findFirst.induct)
     (auto simp: spread_def split: option.splits)

text \<open>
  Claim C4. Let \<open>nd\<close> be a node of a flowchart with distinct ids, and \<open>t\<close> the text of its
  edit buffer. After \<^verbatim>\<open>handleSaveEdit\<close> the node with that id has the name \<open>trim t\<close>
  when \<open>trim t\<close> is not empty, and its old name when it is empty; after
  \<^verbatim>\<open>handleCancelEdit\<close> it has its old name. In all three cases \<open>isEditing\<close> is false
  and the other fields are as before. The same holds whether or not the node was being
  edited.
\<close>

theorem commit_and_cancel:
  assumes "distinct (ids flowchart)" and "nd \<in> set (nodes flowchart)"
  shows "(trim t \<noteq> [] \<longrightarrow>
           findNode (id_n nd) (fst (handleSaveEdit nd t flowchart)) =
             Some (Node (id_n nd) (trim t) (children nd) False (childrenVisible nd))) \<and>
         (trim t = [] \<longrightarrow>
           findNode (id_n nd) (fst (handleSaveEdit nd t flowchart)) =
             Some (Node (id_n nd) (name nd) (children nd) False (childrenVisible nd))) \<and>
         findNode (id_n nd) (fst (handleCancelEdit nd t flowchart)) =
             Some (Node (id_n nd) (name nd) (children nd) False (childrenVisible nd))"
  using findNode_distinct[OF assms]
  by (simp add: handleSaveEdit_def handleCancelEdit_def updateNode_def
      findNode_updateNodeRecursive no_updates_def spread_def)

lemma being_edited_eq:
  "being_edited = Node (js ''root'') (js ''Start'') [edited_button] False True"
  by (simp add: being_edited_def handleDoubleClick_def updateNode_def one_button_eq
      first_button_def edited_button_def no_updates_def spread_def js_def)

theorem commit_and_cancel_witness:
  "distinct (ids being_edited) \<and> edited_button \<in> set (nodes being_edited) \<and>
   isEditing edited_button \<and> trim (js ''  '') = [] \<and>
   findNode (id_n edited_button) (fst (handleSaveEdit edited_button (js ''  '') being_edited))
     = Some first_button \<and>
   trim (js '' Save me  '') = js ''Save me'' \<and>
   findNode (id_n edited_button)
     (fst (handleSaveEdit edited_button (js '' Save me  '') being_edited))
     = Some (Node (id_n first_button) (js ''Save me'') [] False True) \<and>
   findNode (id_n edited_button)
     (fst (handleCancelEdit edited_button (js '' Save me  '') being_edited))
     = Some first_button"
proof -
  have d: "distinct (ids being_edited)"
    by (simp add: being_edited_eq edited_button_def js_def)
  have m: "edited_button \<in> set (nodes being_edited)"
    by (simp add: being_edited_eq edited_button_def)
  have t1: "trim (js ''  '') = []" by (simp add: trim_def js_def isWhiteSpace_def)
  have t2: "trim (js '' Save me  '') = js ''Save me''"
    by (simp add: trim_def js_def isWhiteSpace_def)
  have ne: "js ''Save me'' \<noteq> []" by (simp add: js_def)
  from commit_and_cancel [OF d m, of "js ''  ''"]
    commit_and_cancel [OF d m, of "js '' Save me  ''"]
  show ?thesis
    using d m t1 t2 ne by (simp add: edited_button_def first_button_def)
qed

section \<open>Rounding\<close>

lemma floorlog2_eqI: "2 ^ k \<le> m \<Longrightarrow> m < 2 ^ Suc k \<Longrightarrow> floorlog 2 m = Suc k"
  by (intro antisym floorlog_leI floorlog_ge_SucI) simp_all

lemma round53_small: "m < 2 ^ 53 \<Longrightarrow> round53 m = m"
  by (simp add: round53_def floorlog_le_iff)

lemma round53_large:
  "53 < floorlog 2 m \<Longrightarrow>
   round53 m =
     (if m mod 2 ^ (floorlog 2 m - 53) < 2 ^ (floorlog 2 m - 53 - 1) \<or>
         (m mod 2 ^ (floorlog 2 m - 53) = 2 ^ (floorlog 2 m - 53 - 1) \<and>
          even (m div 2 ^ (floorlog 2 m - 53)))
      then m div 2 ^ (floorlog 2 m - 53) else m div 2 ^ (floorlog 2 m - 53) + 1)
     * 2 ^ (floorlog 2 m - 53)"
  unfolding round53_def Let_def by (simp only: not_le [symmetric] if_False)

text \<open>The constant of the source is the double nearest to \<open>0.7\<close>.\<close>

lemma charWidth_nearest: "\<bar>rem_of_units 3152519739159347 - 0.7\<bar> \<le> 1 / 2 ^ 54"
  by (simp add: rem_of_units_def)

text \<open>Rounding moves a number by at most half a unit in its last place.\<close>

lemma round53_error: "\<bar>real (round53 m) - real m\<bar> \<le> real m / 2 ^ 53"
proof (cases "floorlog 2 m \<le> 53")
  case True
  then show ?thesis by (simp add: round53_def)
next
  case False
  define s where "s = floorlog 2 m - 53"
  define q where "q = m div 2 ^ s"
  define r where "r = m mod 2 ^ s"
  define h :: nat where "h = 2 ^ (s - 1)"
  from False have b: "53 < floorlog 2 m" by simp
  then have m0: "0 < m" using floorlog_eq_zero_iff [of 2 m] by auto
  have s1: "1 \<le> s" using b by (simp add: s_def)
  have pow: "(2::nat) ^ s = 2 * h" using s1 by (simp add: h_def power_eq_if)
  have "q * 2 ^ s + r = m" unfolding q_def r_def by (rule div_mult_mod_eq)
  then have m: "m = q * (2 * h) + r" unfolding pow by (rule sym)
  have rlt: "r < 2 * h" unfolding pow [symmetric] r_def by simp
  have "(2::nat) ^ (floorlog 2 m - 1) \<le> m" using floorlog_bounds [OF m0, of 2] by simp
  moreover have "floorlog 2 m - 1 = 53 + (s - 1)" using b by (simp add: s_def)
  ultimately have hm: "2 ^ 53 * h \<le> m" by (simp add: h_def power_add)
  have "real (2 ^ 53 * h) \<le> real m" using hm by (simp only: of_nat_le_iff)
  then have hm': "real h \<le> real m / 2 ^ 53" by (simp add: field_simps)
  have "round53 m = (if r < h \<or> (r = h \<and> even q) then q else q + 1) * 2 ^ s"
    unfolding round53_large [OF b] q_def r_def h_def s_def ..
  then have rd: "round53 m = (if r < h \<or> (r = h \<and> even q) then q else q + 1) * (2 * h)"
    unfolding pow .
  have mr: "real m = real q * (2 * real h) + real r"
    by (subst m) simp
  have "\<bar>real (round53 m) - real m\<bar> \<le> real h"
  proof (cases "r < h \<or> (r = h \<and> even q)")
    case True
    then have "round53 m = q * (2 * h)" unfolding rd by (simp only: if_True)
    then have "real (round53 m) = real q * (2 * real h)" by simp
    with mr have "real (round53 m) - real m = - real r" by simp
    moreover from True have "real r \<le> real h" by auto
    ultimately show ?thesis by simp
  next
    case False
    then have "round53 m = (q + 1) * (2 * h)" unfolding rd by (simp only: if_False)
    then have "real (round53 m) = (real q + 1) * (2 * real h)" by (simp add: algebra_simps)
    with mr have "real (round53 m) - real m = 2 * real h - real r" by (simp add: algebra_simps)
    moreover from False have "real h \<le> real r" by auto
    moreover from rlt have "real r < 2 * real h"
      by (metis of_nat_less_iff of_nat_mult of_nat_numeral)
    ultimately show ?thesis by simp
  qed
  with hm' show ?thesis by linarith
qed

lemma three_roundings:
  fixes n k P S :: real
  assumes "0 \<le> n" "\<bar>k - n\<bar> \<le> n / 2 ^ 53"
    "\<bar>P - k * 3152519739159347\<bar> \<le> k * 3152519739159347 / 2 ^ 53"
    "\<bar>S - (P + 4 * 2 ^ 52)\<bar> \<le> (P + 4 * 2 ^ 52) / 2 ^ 53"
  shows "\<bar>S / 2 ^ 52 - (n * 0.7 + 4)\<bar> \<le> (n * 0.7 + 4) / 2 ^ 51"
proof -
  have p: "(2::real) ^ 53 = 9007199254740992" "(2::real) ^ 52 = 4503599627370496"
    "(2::real) ^ 51 = 2251799813685248" by simp_all
  from assms(2) have k: "k \<le> n + n / 9007199254740992" "n - n / 9007199254740992 \<le> k"
    unfolding p by linarith+
  from assms(3) have P: "P \<le> k * 3152519739159347 + k * 3152519739159347 / 9007199254740992"
    "k * 3152519739159347 - k * 3152519739159347 / 9007199254740992 \<le> P"
    unfolding p by linarith+
  from assms(4)
  have S: "S \<le> (P + 4 * 4503599627370496) + (P + 4 * 4503599627370496) / 9007199254740992"
    "(P + 4 * 4503599627370496) - (P + 4 * 4503599627370496) / 9007199254740992 \<le> S"
    unfolding p by linarith+
  have Pu: "P \<le> n * 3152519739159348"
    using assms(1) k(1) P(1) by (simp add: field_simps)
  have up: "S / 4503599627370496 - (n * 0.7 + 4) \<le> (n * 0.7 + 4) / 2251799813685248"
    using assms(1) Pu S(1) by (simp add: field_simps)
  have Pl: "n * (3152519739159347 * (9007199254740991 * 9007199254740991))
      \<le> P * (9007199254740992 * 9007199254740992)"
    using assms(1) k(2) P(2) by (simp add: field_simps)
  have lo: "(n * 0.7 + 4) - S / 4503599627370496 \<le> (n * 0.7 + 4) / 2251799813685248"
    using assms(1) Pl S(2) by (simp add: field_simps)
  show ?thesis unfolding p abs_le_iff using up lo by linarith
qed

section \<open>Display text and width\<close>

lemma max_diff_le: "\<bar>max c a - max c b\<bar> \<le> \<bar>a - b\<bar>" for a b c :: real
  by linarith

lemma getButtonWidth_max:
  "getButtonWidth t =
     max 8 (real (round53 (round53 (round53 (length t) * 3152519739159347) + 4 * 2 ^ 52))
            / 2 ^ 52)"
proof -
  define X where "X = round53 (round53 (round53 (length t) * 3152519739159347) + 4 * 2 ^ 52)"
  have "real (max (8 * 2 ^ 52) X) / 2 ^ 52 = max 8 (real X / 2 ^ 52)"
  proof (cases "8 * 2 ^ 52 \<le> X")
    case True
    then have "real (8 * 2 ^ 52) \<le> real X" by (simp only: of_nat_le_iff)
    then have "8 \<le> real X / 2 ^ 52" by (simp add: field_simps)
    with True show ?thesis by (simp add: max_def)
  next
    case False
    then have "X \<le> 8 * 2 ^ 52" by simp
    then have "real X \<le> real (8 * 2 ^ 52)" by (simp only: of_nat_le_iff)
    then have "real X / 2 ^ 52 \<le> 8" by (simp add: field_simps)
    with False show ?thesis by (simp add: max_def)
  qed
  then show ?thesis
    by (simp add: getButtonWidth_def rem_of_units_def X_def)
qed

lemma getButtonWidth_error:
  "\<bar>getButtonWidth t - max 8 (real (length t) * 0.7 + 4)\<bar>
     \<le> (real (length t) * 0.7 + 4) / 2 ^ 51"
proof -
  define n where "n = real (length t)"
  define k where "k = real (round53 (length t))"
  define P where "P = real (round53 (round53 (length t) * 3152519739159347))"
  define S where
    "S = real (round53 (round53 (round53 (length t) * 3152519739159347) + 4 * 2 ^ 52))"
  have n0: "0 \<le> n" by (simp add: n_def)
  have e1: "\<bar>k - n\<bar> \<le> n / 2 ^ 53"
    unfolding k_def n_def by (rule round53_error)
  have e2: "\<bar>P - k * 3152519739159347\<bar> \<le> k * 3152519739159347 / 2 ^ 53"
    unfolding P_def k_def using round53_error [of "round53 (length t) * 3152519739159347"]
    by simp
  have e3: "\<bar>S - (P + 4 * 2 ^ 52)\<bar> \<le> (P + 4 * 2 ^ 52) / 2 ^ 53"
    unfolding S_def P_def
    using round53_error [of "round53 (round53 (length t) * 3152519739159347) + 4 * 2 ^ 52"]
    by simp
  have w: "getButtonWidth t = max 8 (S / 2 ^ 52)"
    unfolding S_def by (rule getButtonWidth_max)
  have "\<bar>S / 2 ^ 52 - (n * 0.7 + 4)\<bar> \<le> (n * 0.7 + 4) / 2 ^ 51"
    using n0 e1 e2 e3 by (rule three_roundings)
  moreover have "\<bar>max 8 (S / 2 ^ 52) - max 8 (n * 0.7 + 4)\<bar> \<le> \<bar>S / 2 ^ 52 - (n * 0.7 + 4)\<bar>"
    by (rule max_diff_le)
  ultimately show ?thesis
    unfolding w n_def [symmetric] by (rule order_trans [rotated])
qed

lemma getButtonWidth_7:
  "length t = 7 \<Longrightarrow> getButtonWidth t = 40082036683597408 / 2 ^ 52"
proof -
  assume l: "length t = 7"
  have f1: "floorlog 2 (22067638174115429::nat) = Suc 54"
    by (rule floorlog2_eqI) simp_all
  have r1: "round53 22067638174115429 = 22067638174115428"
    by (simp add: round53_def f1)
  have f2: "floorlog 2 (40082036683597412::nat) = Suc 55"
    by (rule floorlog2_eqI) simp_all
  have r2: "round53 40082036683597412 = 40082036683597408"
    by (simp add: round53_def f2)
  show ?thesis
    by (simp add: getButtonWidth_max l round53_small r1 r2)
qed

lemma getButtonWidth_23:
  "length t = 23 \<Longrightarrow> getButtonWidth t = 90522352510146960 / 2 ^ 52"
proof -
  assume l: "length t = 23"
  have f1: "floorlog 2 (72507954000664981::nat) = Suc 56"
    by (rule floorlog2_eqI) simp_all
  have r1: "round53 72507954000664981 = 72507954000664976"
    by (simp add: round53_def f1)
  have f2: "floorlog 2 (90522352510146960::nat) = Suc 56"
    by (rule floorlog2_eqI) simp_all
  have r2: "round53 90522352510146960 = 90522352510146960"
    by (simp add: round53_def f2)
  show ?thesis
    by (simp add: getButtonWidth_max l round53_small r1 r2)
qed

text \<open>
  Claim C7. The display text of a label is the label itself when truncation is off or the
  label has at most 20 code units; otherwise it is the first 20 code units followed by
  three dots. So a label of 20 code units is never cut, and one of 21 code units, with
  truncation on, is shown as its first 20 code units and the dots.
\<close>

theorem display_text:
  "(\<not> truncateText \<or> length s \<le> 20 \<longrightarrow> getDisplayText truncateText s = s) \<and>
   (truncateText \<and> 20 < length s \<longrightarrow>
      getDisplayText truncateText s = take 20 s @ js ''...'') \<and>
   (length s = 20 \<longrightarrow> getDisplayText truncateText s = s) \<and>
   (length s = 21 \<longrightarrow>
      getDisplayText True s = take 20 s @ js ''...'' \<and> length (take 20 s) = 20)"
  by (simp add: getDisplayText_def)

theorem display_text_witness:
  "length (js ''exactly twenty units'') = 20 \<and>
   getDisplayText True (js ''exactly twenty units'') = js ''exactly twenty units'' \<and>
   length (js ''twenty-one code units'') = 21 \<and>
   getDisplayText True (js ''twenty-one code units'') = js ''twenty-one code unit...'' \<and>
   getDisplayText False (js ''twenty-one code units'') = js ''twenty-one code units'' \<and>
   20 < length long_name \<and>
   getDisplayText True long_name = js ''A label with 30 code...''"
proof -
  have l20: "length (js ''exactly twenty units'') = 20" by (simp add: js_def)
  have l21: "length (js ''twenty-one code units'') = 21" by (simp add: js_def)
  have l30: "length long_name = 30" by (simp add: long_name_def js_def)
  have b: "take 20 (js ''twenty-one code units'') @ js ''...'' = js ''twenty-one code unit...''"
    by (simp add: js_def)
  have t: "take 20 long_name @ js ''...'' = js ''A label with 30 code...''"
    by (simp add: long_name_def js_def)
  from display_text [of True "js ''exactly twenty units''"]
    display_text [of True "js ''twenty-one code units''"]
    display_text [of False "js ''twenty-one code units''"]
    display_text [of True long_name]
  show ?thesis
    using l20 l21 l30 b t by simp
qed

text \<open>
  Claim C8, as amended. The width of the box is \<^verbatim>\<open>Math.max(8, n * 0.7 + 4)\<close> as
  double arithmetic computes it, where \<open>n\<close> is the length of the edit buffer while the
  node is being edited, and the length of the display text of its name otherwise: \<open>0.7\<close>
  is the nearest double, and the product and the sum are rounded. The result is within
  \<open>(n * 0.7 + 4) / 2\<^sup>5\<^sup>1\<close> of the exact value \<open>max 8 (n * 0.7 + 4)\<close>.
\<close>

theorem box_width:
  "(isEditing nd \<longrightarrow> buttonWidth truncateText nd editValue = getButtonWidth editValue) \<and>
   (\<not> isEditing nd \<longrightarrow>
      buttonWidth truncateText nd editValue =
        getButtonWidth (if truncateText \<and> 20 < length (name nd)
                        then take 20 (name nd) @ js ''...'' else name nd)) \<and>
   getButtonWidth t =
     max 8 (rem_of_units
       (round53 (round53 (round53 (length t) * 3152519739159347) + 4 * 2 ^ 52))) \<and>
   \<bar>rem_of_units 3152519739159347 - 0.7\<bar> \<le> 1 / 2 ^ 54 \<and>
   \<bar>getButtonWidth t - max 8 (real (length t) * 0.7 + 4)\<bar>
     \<le> (real (length t) * 0.7 + 4) / 2 ^ 51"
  using getButtonWidth_max [of t] getButtonWidth_error [of t] charWidth_nearest
  by (simp add: buttonWidth_def getDisplayText_def rem_of_units_def)

theorem box_width_witness:
  "isEditing edited_button \<and> length (js ''Renamed'') = 7 \<and>
   buttonWidth True edited_button (js ''Renamed'') = 40082036683597408 / 2 ^ 52 \<and>
   \<bar>40082036683597408 / 2 ^ 52 - max 8 (7 * 0.7 + 4)\<bar> \<le> ((7 * 0.7 + 4) / 2 ^ 51 :: real) \<and>
   \<not> isEditing (Node (js ''root'') long_name [] False True) \<and>
   buttonWidth True (Node (js ''root'') long_name [] False True) []
     = 90522352510146960 / 2 ^ 52"
proof -
  have l7: "length (js ''Renamed'') = 7" by (simp add: js_def)
  have l30: "length long_name = 30" by (simp add: long_name_def js_def)
  have l23: "length (take 20 long_name @ js ''...'') = 23" by (simp add: l30 js_def)
  from box_width [of edited_button True "js ''Renamed''" "js ''Renamed''"]
    box_width [of "Node (js ''root'') long_name [] False True" True "[]" "js ''Renamed''"]
  show ?thesis
    using l7 getButtonWidth_7 [OF l7] getButtonWidth_23 [OF l23]
    by (simp add: edited_button_def l30)
qed

text \<open>
  The width is not always the exact value of the formula: for a name of 7 code units the
  formula gives \<open>8.9\<close>, and the code \<open>40082036683597408 / 2\<^sup>5\<^sup>2\<close>, the double that
  prints as \<^verbatim>\<open>8.899999999999999\<close>.
\<close>

theorem box_width_counterexample:
  "buttonWidth False (Node (js ''root'') (js ''Renamed'') [] False True) []
     \<noteq> max 8 (real (length (js ''Renamed'')) * 0.7 + 4)"
proof -
  have l7: "length (js ''Renamed'') = 7" by (simp add: js_def)
  show ?thesis
    by (simp add: buttonWidth_def getButtonWidth_7 [OF l7] l7)
qed

lemma length_getDisplayText: "length (getDisplayText True s) \<le> 23"
  by (simp add: getDisplayText_def js_def)

lemma getButtonWidth_short:
  assumes "length t \<le> 20"
  shows "getButtonWidth t \<le> 90522352510146960 / 2 ^ 52"
proof -
  define n where "n = real (length t)"
  have n: "0 \<le> n" "n \<le> 20" using assms by (simp_all add: n_def)
  have p: "(2::real) ^ 52 = 4503599627370496" "(2::real) ^ 51 = 2251799813685248"
    by simp_all
  from getButtonWidth_error [of t]
  have "getButtonWidth t \<le> max 8 (n * 0.7 + 4) + (n * 0.7 + 4) / 2251799813685248"
    unfolding n_def [symmetric] p by linarith
  moreover have "max 8 (n * 0.7 + 4) \<le> 18" using n by simp
  moreover have "(n * 0.7 + 4) / 2251799813685248 \<le> 1" using n by simp
  ultimately have "getButtonWidth t \<le> 19" by linarith
  then show ?thesis unfolding p by simp
qed

lemma getButtonWidth_grows:
  "real (length t) * (69 / 100) + 39 / 10 \<le> getButtonWidth t"
proof -
  define n where "n = real (length t)"
  have n: "0 \<le> n" by (simp add: n_def)
  have p: "(2::real) ^ 51 = 2251799813685248" by simp
  from getButtonWidth_error [of t]
  have "max 8 (n * 0.7 + 4) - (n * 0.7 + 4) / 2251799813685248 \<le> getButtonWidth t"
    unfolding n_def [symmetric] p by linarith
  moreover have "n * 0.7 + 4 \<le> max 8 (n * 0.7 + 4)" by simp
  moreover have "(n * 0.7 + 4) / 2251799813685248 \<le> n * (1 / 100) + 1 / 10"
    using n by (simp add: field_simps)
  ultimately show ?thesis unfolding n_def [symmetric] by linarith
qed

lemma getButtonWidth_long:
  assumes "24 \<le> length t"
  shows "20.1 < getButtonWidth t"
proof -
  from assms have "24 \<le> real (length t)" by simp
  with getButtonWidth_grows [of t] show ?thesis by linarith
qed

text \<open>
  Claim C10. With truncation on, the display text has at most 23 code units, so the box
  of a node that is not being edited is at most as wide as the code makes it for 23 code
  units, which is below \<open>max 8 (23 * 0.7 + 4) = 20.1\<close>. With truncation off, and while a
  node is being edited, no such bound holds: every text of at least 24 code units is wider
  than \<open>20.1\<close>, and the width of a text of \<open>n\<close> code units is at least \<open>0.69 * n + 3.9\<close>.
\<close>

theorem truncated_width_bound:
  "length (getDisplayText True s) \<le> 23 \<and>
   (\<not> isEditing nd \<longrightarrow>
      buttonWidth True nd editValue \<le> getButtonWidth (replicate 23 c) \<and>
      buttonWidth True nd editValue \<le> max 8 (23 * 0.7 + 4)) \<and>
   getButtonWidth (replicate 23 c) = 90522352510146960 / 2 ^ 52 \<and>
   max 8 (23 * 0.7 + 4) = (20.1 :: real) \<and>
   (24 \<le> length nm \<longrightarrow> 20.1 < buttonWidth False (Node i nm cs False v) editValue) \<and>
   (24 \<le> length ev \<longrightarrow> 20.1 < buttonWidth truncateText (Node i nm' cs True v) ev) \<and>
   real (length nm) * (69 / 100) + 39 / 10 \<le> buttonWidth False (Node i nm cs False v) editValue \<and>
   real (length ev) * (69 / 100) + 39 / 10 \<le> buttonWidth truncateText (Node i nm' cs True v) ev"
proof -
  have w23: "getButtonWidth (replicate 23 c) = 90522352510146960 / 2 ^ 52"
    by (rule getButtonWidth_23) simp
  have le: "(90522352510146960 / 2 ^ 52 :: real) \<le> 20.1" by simp
  have bound: "getButtonWidth (getDisplayText True t) \<le> 90522352510146960 / 2 ^ 52" for t
  proof (cases "length t \<le> 20")
    case True
    then have "getDisplayText True t = t" by (simp add: getDisplayText_def)
    with getButtonWidth_short [OF True] show ?thesis by (simp only:)
  next
    case False
    then have "length (getDisplayText True t) = 23" by (simp add: getDisplayText_def js_def)
    then show ?thesis by (simp only: getButtonWidth_23)
  qed
  have trunc: "\<not> isEditing nd \<longrightarrow> buttonWidth True nd editValue \<le> 90522352510146960 / 2 ^ 52"
    using bound [of "name nd"] by (simp add: buttonWidth_def)
  have grow1: "real (length nm) * (69 / 100) + 39 / 10
      \<le> buttonWidth False (Node i nm cs False v) editValue"
    using getButtonWidth_grows [of nm] by (simp add: buttonWidth_def)
  have grow2: "real (length ev) * (69 / 100) + 39 / 10
      \<le> buttonWidth truncateText (Node i nm' cs True v) ev"
    using getButtonWidth_grows [of ev] by (simp add: buttonWidth_def)
  have long1: "24 \<le> length nm \<longrightarrow> 20.1 < buttonWidth False (Node i nm cs False v) editValue"
    using getButtonWidth_long [of nm] by (simp add: buttonWidth_def)
  have long2: "24 \<le> length ev \<longrightarrow> 20.1 < buttonWidth truncateText (Node i nm' cs True v) ev"
    using getButtonWidth_long [of ev] by (simp add: buttonWidth_def)
  have m: "max 8 (23 * 0.7 + 4) = (20.1 :: real)" by simp
  from trunc le have trunc': "\<not> isEditing nd \<longrightarrow> buttonWidth True nd editValue \<le> 20.1"
    by linarith
  show ?thesis
    unfolding m w23 using length_getDisplayText [of s] trunc trunc' grow1 grow2 long1 long2
    by blast
qed

theorem truncated_width_bound_witness:
  "\<not> isEditing (Node (js ''root'') long_name [] False True) \<and>
   length (getDisplayText True long_name) = 23 \<and>
   buttonWidth True (Node (js ''root'') long_name [] False True) [] = 90522352510146960 / 2 ^ 52 \<and>
   buttonWidth True (Node (js ''root'') long_name [] False True) [] \<le> 20.1 \<and>
   24 \<le> length long_name \<and>
   20.1 < buttonWidth False (Node (js ''root'') long_name [] False True) [] \<and>
   20.1 < buttonWidth True (Node (js ''root'') (js ''Start'') [] True True) long_name"
proof -
  have l30: "length long_name = 30" by (simp add: long_name_def js_def)
  have l23: "length (getDisplayText True long_name) = 23"
    by (simp add: getDisplayText_def l30 js_def)
  have w: "buttonWidth True (Node (js ''root'') long_name [] False True) []
      = 90522352510146960 / 2 ^ 52"
    by (simp add: buttonWidth_def getButtonWidth_23 [OF l23])
  from truncated_width_bound [of long_name "Node (js ''root'') long_name [] False True" "[]" 0
      long_name "js ''root''" "[]" True long_name True "js ''Start''"]
  show ?thesis
    using l23 l30 w by simp
qed

section \<open>The row of children\<close>

text \<open>
  Claim C9. A button renders a row of children only when it has at least one child and
  \<open>childrenVisible\<close> is true. With one child there is no horizontal connector. With
  \<open>n \<ge> 2\<close> children the horizontal connector is \<open>(n - 1) * 14 + 6\<close> wide and carries
  \<open>n\<close> vertical lines, the one of child \<open>i\<close> at \<open>i * 14\<close>; the children follow in the
  order of the array, which is the order of their creation.
\<close>

theorem child_row_geometry:
  "((childRow nd depth \<noteq> None) = (1 \<le> length (children nd) \<and> childrenVisible nd)) \<and>
   (length (children nd) = 1 \<and> childrenVisible nd \<longrightarrow>
      (\<exists>r. childRow nd depth = Some r \<and> horizontal r = None)) \<and>
   (2 \<le> length (children nd) \<and> childrenVisible nd \<longrightarrow>
      (\<exists>r h. childRow nd depth = Some r \<and> horizontal r = Some h \<and>
         width h = (length (children nd) - 1) * 14 + 6 \<and>
         length (lefts h) = length (children nd) \<and>
         (\<forall>i < length (children nd). lefts h ! i = i * 14) \<and>
         map fst (row r) = children nd))"
  by (auto simp: childRow_def hasChildren_def comp_def Suc_le_eq)

theorem child_row_geometry_witness:
  "2 \<le> length (children two_buttons) \<and> childrenVisible two_buttons \<and>
   childRow two_buttons 0 =
     Some \<lparr>horizontal = Some \<lparr>width = 20, lefts = [0, 14]\<rparr>,
           row = [(children two_buttons ! 0, 1), (children two_buttons ! 1, 1)]\<rparr> \<and>
   length (children one_button) = 1 \<and> childrenVisible one_button \<and>
   childRow one_button 0 = Some \<lparr>horizontal = None, row = [(first_button, 1)]\<rparr> \<and>
   childRow initial 0 = None \<and>
   childRow (fst (handleDoubleClick first_button [] (toggleChildrenVisibility one_button one_button))) 0
     = None"
proof -
  have two: "length (children two_buttons) = 2" "childrenVisible two_buttons"
    by (simp_all add: two_buttons_eq)
  have one: "length (children one_button) = 1" "childrenVisible one_button"
    by (simp_all add: one_button_eq)
  from child_row_geometry [of two_buttons 0] child_row_geometry [of one_button 0]
    child_row_geometry [of initial 0]
  show ?thesis
    using two one
    by (simp add: childRow_def hasChildren_def two_buttons_eq one_button_eq initial_def
        first_button_def toggleChildrenVisibility_def handleDoubleClick_def updateNode_def
        no_updates_def spread_def upt_rec js_def)
qed

section \<open>The shape of the tree under an update\<close>

lemma shape_of_updateNodeRecursive:
  "u_children upd = None \<Longrightarrow> shape_of (updateNodeRecursive nodeId upd t) = shape_of t"
  by (induction t) (simp add: spread_def)

lemma ids_updateNodeRecursive:
  "u_children upd = None \<Longrightarrow> u_id upd = None \<Longrightarrow> ids (updateNodeRecursive nodeId upd t) = ids t"
  by (induction t) (auto simp: spread_def intro: arg_cong [where f = concat])

lemma map_fst_contents: "map fst (contents t) = ids t"
  by (induction t) (auto simp: map_concat comp_def intro: arg_cong [where f = concat])

lemma list_all2_concat_map:
  "(\<And>c. c \<in> set cs \<Longrightarrow> list_all2 R (f c) (g c)) \<Longrightarrow>
     list_all2 R (concat (map f cs)) (concat (map g cs))"
  by (induction cs) (auto intro: list_all2_appendI)

lemma contents_updateNodeRecursive:
  "u_children upd = None \<Longrightarrow>
     list_all2 (\<lambda>a b. a = b \<or> fst a = nodeId) (contents t)
       (contents (updateNodeRecursive nodeId upd t))"
proof (induction t)
  case (Node i nm cs e v)
  show ?case
  proof (cases "i = nodeId")
    case True
    have "list_all2 (\<lambda>a b. a = b \<or> fst a = nodeId) (concat (map contents cs))
            (concat (map contents cs))"
      by (simp add: list_all2_refl)
    with True Node.prems show ?thesis by (simp add: spread_def)
  next
    case False
    have "list_all2 (\<lambda>a b. a = b \<or> fst a = nodeId) (concat (map contents cs))
            (concat (map (\<lambda>c. contents (updateNodeRecursive nodeId upd c)) cs))"
      using Node.IH Node.prems by (intro list_all2_concat_map) simp
    with False show ?thesis by (simp add: comp_def)
  qed
qed

lemma unchanged_without_id:
  "list_all2 (\<lambda>a b. a = b \<or> fst a = i) xs ys \<Longrightarrow> i \<notin> fst ` set xs \<Longrightarrow> ys = xs"
  by (induction xs ys rule: list_all2_induct) auto

lemma at_most_one_changed:
  "list_all2 (\<lambda>a b. a = b \<or> fst a = i) xs ys \<Longrightarrow> distinct (map fst xs) \<Longrightarrow>
     length (filter (\<lambda>(a, b). a \<noteq> b) (zip xs ys)) \<le> 1"
proof (induction xs ys rule: list_all2_induct)
  case Nil
  then show ?case by simp
next
  case (Cons x xs y ys)
  show ?case
  proof (cases "x = y")
    case True
    with Cons show ?thesis by simp
  next
    case False
    with Cons.hyps have "fst x = i" by simp
    with Cons.prems have "i \<notin> fst ` set xs" by auto
    with Cons.hyps have "ys = xs" by (intro unchanged_without_id)
    then have "filter (\<lambda>(a, b). a \<noteq> b) (zip xs ys) = []"
      by (auto simp: filter_empty_conv in_set_zip)
    then show ?thesis by simp
  qed
qed

lemma patch_content_spread: "patch_content upd (content nd) = content (spread nd upd)"
  by (simp add: patch_content_def content_def spread_def)

lemma map_patch_without_id:
  "i \<notin> fst ` set xs \<Longrightarrow> map (\<lambda>c. if fst c = i then g c else c) xs = xs"
  by (induction xs) auto

lemma contents_updateNodeRecursive_map:
  "distinct (ids t) \<Longrightarrow> u_children upd = None \<Longrightarrow>
     contents (updateNodeRecursive nodeId upd t) =
       map (\<lambda>c. if fst c = nodeId then patch_content upd c else c) (contents t)"
proof (induction t)
  case (Node i nm cs e v)
  let ?f = "\<lambda>c. if fst c = nodeId then patch_content upd c else c"
  show ?case
  proof (cases "i = nodeId")
    case True
    with Node.prems(1) have "nodeId \<notin> set (concat (map ids cs))" by simp
    then have "nodeId \<notin> fst ` set (concat (map contents cs))"
      by (simp add: map_fst_contents [symmetric] image_UN)
    then have "map ?f (concat (map contents cs)) = concat (map contents cs)"
      by (rule map_patch_without_id)
    with True Node.prems(2) show ?thesis
      by (simp add: spread_def patch_content_def split: option.splits)
  next
    case False
    have each: "contents (updateNodeRecursive nodeId upd c) = map ?f (contents c)"
      if "c \<in> set cs" for c
    proof -
      from that obtain as bs where "cs = as @ c # bs" by (auto dest: split_list)
      with Node.prems(1) have "distinct (ids c)" by simp
      with Node.IH [OF that] Node.prems(2) show ?thesis by simp
    qed
    have "map (\<lambda>c. contents (updateNodeRecursive nodeId upd c)) cs
        = map (\<lambda>c. map ?f (contents c)) cs"
      by (rule map_cong [OF refl]) (rule each)
    then have "concat (map (\<lambda>c. contents (updateNodeRecursive nodeId upd c)) cs)
        = concat (map (\<lambda>c. map ?f (contents c)) cs)"
      by (rule arg_cong)
    also have "\<dots> = map ?f (concat (map contents cs))"
      by (simp add: map_concat comp_def)
    finally show ?thesis using False by (simp add: comp_def)
  qed
qed

lemma no_change_without_id:
  "i \<notin> fst ` set xs \<Longrightarrow>
     filter (\<lambda>(a, b). a \<noteq> b) (zip xs (map (\<lambda>c. if fst c = i then g c else c) xs)) = []"
  by (induction xs) auto

lemma changed_count:
  "distinct (map fst xs) \<Longrightarrow>
     length (filter (\<lambda>(a, b). a \<noteq> b) (zip xs (map (\<lambda>c. if fst c = i then g c else c) xs))) =
       (if \<exists>c \<in> set xs. fst c = i \<and> g c \<noteq> c then 1 else 0)"
proof (induction xs)
  case Nil
  then show ?case by simp
next
  case (Cons x xs)
  show ?case
  proof (cases "fst x = i")
    case True
    with Cons.prems have "i \<notin> fst ` set xs" by auto
    then have "filter (\<lambda>(a, b). a \<noteq> b)
        (zip xs (map (\<lambda>c. if fst c = i then g c else c) xs)) = []"
      and "\<not> (\<exists>c \<in> set xs. fst c = i \<and> g c \<noteq> c)"
      by (auto simp: no_change_without_id)
    with True show ?thesis by auto
  next
    case False
    with Cons show ?thesis by auto
  qed
qed

text \<open>
  Claim C6, as amended. For a patch without the field \<^verbatim>\<open>children\<close>, \<^verbatim>\<open>updateNode\<close>
  leaves the shape of the tree as it is: every node keeps the number and the order of its
  children (and, when the patch has no \<^verbatim>\<open>id\<close> either, the ids in depth-first order).
  A node whose id is not \<open>nodeId\<close> keeps its content. In a tree with distinct ids the node
  with the id \<open>nodeId\<close> gets the content that the spread with the patch gives it, so the
  content of exactly one node changes when a node has the id and the patch alters its
  content, and the content of no node changes otherwise.
\<close>

theorem update_keeps_shape:
  assumes "u_children upd = None"
  shows "shape_of (updateNode nodeId upd t) = shape_of t \<and>
         (u_id upd = None \<longrightarrow> ids (updateNode nodeId upd t) = ids t) \<and>
         length (contents (updateNode nodeId upd t)) = length (contents t) \<and>
         (\<forall>k < length (contents t). fst (contents t ! k) \<noteq> nodeId \<longrightarrow>
            contents (updateNode nodeId upd t) ! k = contents t ! k) \<and>
         (distinct (ids t) \<longrightarrow>
            contents (updateNode nodeId upd t) =
              map (\<lambda>c. if fst c = nodeId then patch_content upd c else c) (contents t) \<and>
            changed t (updateNode nodeId upd t) =
              (if \<exists>c \<in> set (contents t). fst c = nodeId \<and> patch_content upd c \<noteq> c
               then 1 else 0)) \<and>
         patch_content upd (content nd) = content (spread nd upd)"
proof -
  let ?t' = "updateNodeRecursive nodeId upd t"
  have rel: "list_all2 (\<lambda>a b. a = b \<or> fst a = nodeId) (contents t) (contents ?t')"
    using assms by (rule contents_updateNodeRecursive)
  then have len: "length (contents ?t') = length (contents t)"
    by (simp add: list_all2_lengthD)
  have same: "contents ?t' ! k = contents t ! k"
    if "k < length (contents t)" "fst (contents t ! k) \<noteq> nodeId" for k
    using list_all2_nthD [OF rel that(1)] that(2) by auto
  have exact: "contents ?t' =
      map (\<lambda>c. if fst c = nodeId then patch_content upd c else c) (contents t)"
    if "distinct (ids t)"
    using that assms by (rule contents_updateNodeRecursive_map)
  have count: "changed t ?t' =
      (if \<exists>c \<in> set (contents t). fst c = nodeId \<and> patch_content upd c \<noteq> c then 1 else 0)"
    if "distinct (ids t)"
    unfolding changed_def exact [OF that]
    using that by (intro changed_count) (simp add: map_fst_contents)
  show ?thesis
    unfolding updateNode_def
    using shape_of_updateNodeRecursive [OF assms] ids_updateNodeRecursive [OF assms]
      len same exact count patch_content_spread [of upd nd]
    by simp
qed

theorem update_keeps_shape_witness:
  "u_children (no_updates\<lparr>u_name := Some (js ''Renamed'')\<rparr>) = None \<and>
   distinct (ids two_buttons) \<and>
   shape_of (updateNode (id_n first_button) (no_updates\<lparr>u_name := Some (js ''Renamed'')\<rparr>)
     two_buttons) = Shape [Shape [], Shape []] \<and>
   shape_of two_buttons = Shape [Shape [], Shape []] \<and>
   contents (updateNode (id_n first_button) (no_updates\<lparr>u_name := Some (js ''Renamed'')\<rparr>)
     two_buttons) =
     [(js ''root'', js ''Start'', False, True),
      (js ''node-1700000000000-k3j9x2m5q'', js ''Renamed'', False, True),
      (js ''node-1700000000250-z8w1c4v6b'', js ''Button 2'', False, True)] \<and>
   changed two_buttons (updateNode (id_n first_button)
     (no_updates\<lparr>u_name := Some (js ''Renamed'')\<rparr>) two_buttons) = 1"
proof -
  have n: "u_children (no_updates\<lparr>u_name := Some (js ''Renamed'')\<rparr>) = None"
    by (simp add: no_updates_def)
  have d: "distinct (ids two_buttons)"
    by (simp add: two_buttons_eq js_def)
  have s: "shape_of two_buttons = Shape [Shape [], Shape []]"
    by (simp add: two_buttons_eq)
  have c: "contents two_buttons =
     [(js ''root'', js ''Start'', False, True),
      (js ''node-1700000000000-k3j9x2m5q'', js ''Button 1'', False, True),
      (js ''node-1700000000250-z8w1c4v6b'', js ''Button 2'', False, True)]"
    by (simp add: two_buttons_eq)
  have i: "id_n first_button = js ''node-1700000000000-k3j9x2m5q''"
    by (simp add: first_button_def)
  from update_keeps_shape [OF n, of "id_n first_button" two_buttons first_button]
  show ?thesis
    using n d s unfolding c i
    by (simp add: patch_content_def no_updates_def js_def)
qed

text \<open>
  The claim as the specification states it fails on three inputs: a patch with the field
  \<^verbatim>\<open>children\<close> changes the shape; an update at an id that no node has changes the
  content of no node, not of exactly one; and so does a patch that repeats the fields of
  the node.
\<close>

theorem update_keeps_shape_counterexample:
  "shape_of (updateNode (js ''root'') (no_updates\<lparr>u_children := Some []\<rparr>) one_button)
     \<noteq> shape_of one_button \<and>
   changed two_buttons
     (updateNode (js ''gone'') (no_updates\<lparr>u_name := Some (js ''Renamed'')\<rparr>) two_buttons)
     \<noteq> 1 \<and>
   changed two_buttons
     (updateNode (js ''root'') (no_updates\<lparr>u_name := Some (js ''Start'')\<rparr>) two_buttons)
     \<noteq> 1"
  by (simp add: changed_def updateNode_def one_button_eq two_buttons_eq no_updates_def
      spread_def js_def)

section \<open>Adding a child\<close>

lemma map_addChildRecursive_split:
  assumes "distinct (concat (map ids cs))" and "p \<in> set (concat (map ids cs))"
  shows "\<exists>as c bs. cs = as @ c # bs \<and> p \<in> set (ids c) \<and>
           map (addChildRecursive p cid) cs = as @ addChildRecursive p cid c # bs"
proof -
  from assms(2) obtain c where "c \<in> set cs" and pc: "p \<in> set (ids c)" by auto
  then obtain as bs where cs: "cs = as @ c # bs" by (auto dest: split_list)
  have "p \<notin> set (ids a)" if "a \<in> set as \<union> set bs" for a
    using assms(1) pc that unfolding cs by auto
  then have "map (addChildRecursive p cid) as = as" "map (addChildRecursive p cid) bs = bs"
    by (auto intro!: map_idI addChildRecursive_absent)
  with cs pc show ?thesis by auto
qed

lemma one_appended_in_middle:
  "one_appended p cid c c' \<Longrightarrow> one_appended_in p cid (as @ c # bs) (as @ c' # bs)"
  by (induction as) auto

lemma one_appended_addChildRecursive:
  "distinct (ids t) \<Longrightarrow> p \<in> set (ids t) \<Longrightarrow> one_appended p cid t (addChildRecursive p cid t)"
proof (induction t)
  case (Node i nm cs e v)
  show ?case
  proof (cases "i = p")
    case True
    then show ?thesis by (simp add: new_leaf_def)
  next
    case False
    with Node.prems have d: "distinct (concat (map ids cs))"
      and m: "p \<in> set (concat (map ids cs))" by auto
    from map_addChildRecursive_split [OF d m, of cid] obtain as c bs where
      cs: "cs = as @ c # bs" and pc: "p \<in> set (ids c)" and
      eq: "map (addChildRecursive p cid) cs = as @ addChildRecursive p cid c # bs"
      by blast
    from d cs have "distinct (ids c)" by simp
    with Node.IH [of c] cs pc have "one_appended p cid c (addChildRecursive p cid c)" by simp
    then have "one_appended_in p cid cs (map (addChildRecursive p cid) cs)"
      unfolding eq unfolding cs by (rule one_appended_in_middle)
    with False show ?thesis by simp
  qed
qed

lemma findNode_addChildRecursive:
  "findNode p (addChildRecursive p cid t) =
     map_option (\<lambda>n. Node (id_n n) (name n) (children n @ [new_leaf cid (length (children n))])
                       (isEditing n) (childrenVisible n)) (findNode p t)"
  "findFirst p (map (addChildRecursive p cid) cs) =
     map_option (\<lambda>n. Node (id_n n) (name n) (children n @ [new_leaf cid (length (children n))])
                       (isEditing n) (childrenVisible n)) (findFirst p cs)"
  by (induction p t and p cs rule: findNode_findFirst.induct)
     (auto simp: new_leaf_def split: option.splits)

lemma mset_ids_addChildRecursive:
  "distinct (ids t) \<Longrightarrow> p \<in> set (ids t) \<Longrightarrow>
     mset (ids (addChildRecursive p cid t)) = add_mset cid (mset (ids t))"
proof (induction t)
  case (Node i nm cs e v)
  show ?case
  proof (cases "i = p")
    case True
    then show ?thesis by simp
  next
    case False
    with Node.prems have d: "distinct (concat (map ids cs))"
      and m: "p \<in> set (concat (map ids cs))" by auto
    from map_addChildRecursive_split [OF d m, of cid] obtain as c bs where
      cs: "cs = as @ c # bs" and pc: "p \<in> set (ids c)" and
      eq: "map (addChildRecursive p cid) cs = as @ addChildRecursive p cid c # bs"
      by blast
    from d cs have "distinct (ids c)" by simp
    with Node.IH [of c] cs pc
    have "mset (ids (addChildRecursive p cid c)) = add_mset cid (mset (ids c))" by simp
    then have "mset (concat (map ids (map (addChildRecursive p cid) cs))) =
        add_mset cid (mset (concat (map ids cs)))"
      unfolding eq unfolding cs by simp
    with False show ?thesis by (simp add: comp_def)
  qed
qed

lemma distinct_ids_addChildRecursive:
  assumes "distinct (ids t)" and "cid \<notin> set (ids t)"
  shows "distinct (ids (addChildRecursive p cid t))"
    and "set (ids (addChildRecursive p cid t)) \<subseteq> insert cid (set (ids t))"
proof -
  have "distinct (ids (addChildRecursive p cid t)) \<and>
        set (ids (addChildRecursive p cid t)) \<subseteq> insert cid (set (ids t))"
  proof (cases "p \<in> set (ids t)")
    case True
    from mset_ids_addChildRecursive [OF assms(1) True, of cid]
    have eq: "mset (ids (addChildRecursive p cid t)) = mset (cid # ids t)" by simp
    from mset_eq_imp_distinct_iff [OF eq] mset_eq_setD [OF eq] assms show ?thesis by simp
  next
    case False
    with assms show ?thesis by (auto simp: addChildRecursive_absent)
  qed
  then show "distinct (ids (addChildRecursive p cid t))"
    and "set (ids (addChildRecursive p cid t)) \<subseteq> insert cid (set (ids t))" by simp_all
qed

lemma childId_not_root: "childId now random36 \<noteq> js ''root''"
  by (simp add: childId_def js_def)

lemma distinct_ids_addChildren:
  "distinct (ids t) \<Longrightarrow> distinct (map (\<lambda>(p, now, r). childId now r) calls) \<Longrightarrow>
   set (map (\<lambda>(p, now, r). childId now r) calls) \<inter> set (ids t) = {} \<Longrightarrow>
     distinct (ids (addChildren calls t))"
proof (induction calls arbitrary: t)
  case Nil
  then show ?case by simp
next
  case (Cons call calls)
  obtain p now r where call: "call = (p, now, r)" by (cases call)
  let ?t = "addChild p now r t"
  let ?drawn = "map (\<lambda>(p, now, r). childId now r) calls"
  from Cons.prems(3) call have fresh: "childId now r \<notin> set (ids t)" by simp
  from Cons.prems(2) call have later: "childId now r \<notin> set ?drawn" and dd: "distinct ?drawn"
    by simp_all
  from Cons.prems(3) have disj: "set ?drawn \<inter> set (ids t) = {}" by auto
  have d: "distinct (ids ?t)"
    unfolding addChild_def using Cons.prems(1) fresh by (rule distinct_ids_addChildRecursive)
  have sub: "set (ids ?t) \<subseteq> insert (childId now r) (set (ids t))"
    unfolding addChild_def using Cons.prems(1) fresh by (rule distinct_ids_addChildRecursive)
  from sub later disj have "set ?drawn \<inter> set (ids ?t) = {}" by blast
  with Cons.IH [OF d dd] show ?case
    unfolding call by simp
qed

text \<open>
  Claim C2, as amended. The id of a new node is built from the clock and the random
  generator, and nothing compares it with the ids of the tree. When the ids drawn in a run
  of \<^verbatim>\<open>addChild\<close> calls from the initial tree are pairwise distinct, all ids of the
  resulting tree are pairwise distinct.
\<close>

theorem ids_distinct_when_drawn_distinct:
  assumes "distinct (map (\<lambda>(parentId, now, random36). childId now random36) calls)"
  shows "distinct (ids (addChildren calls initial))"
proof -
  have "childId now random36 \<notin> set (ids initial)" for now random36
    by (simp add: initial_def childId_not_root)
  then have "set (map (\<lambda>(parentId, now, random36). childId now random36) calls)
          \<inter> set (ids initial) = {}"
    by auto
  moreover have "distinct (ids initial)" by (simp add: initial_def)
  ultimately show ?thesis using assms by (intro distinct_ids_addChildren)
qed

theorem ids_distinct_when_drawn_distinct_witness:
  "distinct (map (\<lambda>(parentId, now, random36). childId now random36)
     [(js ''root'', 1700000000000, js ''0.k3j9x2m5qp7''),
      (js ''root'', 1700000000250, js ''0.z8w1c4v6bn2'')]) \<and>
   addChildren [(js ''root'', 1700000000000, js ''0.k3j9x2m5qp7''),
      (js ''root'', 1700000000250, js ''0.z8w1c4v6bn2'')] initial = two_buttons \<and>
   distinct (ids two_buttons)"
proof -
  have d: "distinct (map (\<lambda>(parentId, now, random36). childId now random36)
     [(js ''root'', 1700000000000, js ''0.k3j9x2m5qp7''),
      (js ''root'', 1700000000250, js ''0.z8w1c4v6bn2'')])"
    by (simp add: childId_def number_toString.simps js_def digit_def)
  have e: "addChildren [(js ''root'', 1700000000000, js ''0.k3j9x2m5qp7''),
      (js ''root'', 1700000000250, js ''0.z8w1c4v6bn2'')] initial = two_buttons"
    by (simp add: two_buttons_def one_button_def)
  from ids_distinct_when_drawn_distinct [OF d] show ?thesis
    using d e by simp
qed

text \<open>
  Two clicks in the same millisecond whose random strings agree in the nine code units
  that \<^verbatim>\<open>substr(2, 9)\<close> keeps give two nodes the same id.
\<close>

theorem ids_distinct_counterexample:
  "\<not> distinct (ids (addChildren
     [(js ''root'', 1700000000000, js ''0.k3j9x2m5qp7''),
      (js ''root'', 1700000000000, js ''0.k3j9x2m5qzz'')] initial))"
  by (simp add: addChild_def childId_def initial_def number_toString.simps js_def digit_def)

text \<open>
  Claim C3, as amended. In a tree with distinct ids that has a node with the id
  \<open>parentId\<close>, with \<open>n\<close> children, \<^verbatim>\<open>addChild\<close> returns the same tree with one more
  node, at the end of the children of that node: a leaf named \<open>Button (n + 1)\<close>, not
  editing, its children visible. Its id is the string built from the clock and the random
  generator; the ids stay distinct when that string is not yet an id of the tree. Two
  calls at the root of the initial tree give the root the children \<open>Button 1\<close> and
  \<open>Button 2\<close>.
\<close>

theorem addChild_appends_one:
  assumes "distinct (ids t)" and "findNode parentId t = Some nd"
  shows "one_appended parentId (childId now random36) t (addChild parentId now random36 t) \<and>
         findNode parentId (addChild parentId now random36 t) =
           Some (Node (id_n nd) (name nd)
             (children nd @
                [Node (childId now random36)
                   (js ''Button '' @ number_toString (length (children nd) + 1)) [] False True])
             (isEditing nd) (childrenVisible nd)) \<and>
         (childId now random36 \<notin> set (ids t) \<longrightarrow>
            distinct (ids (addChild parentId now random36 t))) \<and>
         map name (children (addChild (js ''root'') now' random36'
            (addChild (js ''root'') now random36 initial))) = [js ''Button 1'', js ''Button 2'']"
proof -
  from assms(2) have present: "parentId \<in> set (ids t)"
    using findNode_absent(1) [of parentId t] by auto
  have "map name (children (addChild (js ''root'') now' random36'
          (addChild (js ''root'') now random36 initial))) = [js ''Button 1'', js ''Button 2'']"
    by (simp add: addChild_def initial_def number_toString.simps js_def digit_def)
  then show ?thesis
    unfolding addChild_def
    using one_appended_addChildRecursive [OF assms(1) present]
      findNode_addChildRecursive(1) [of parentId _ t] assms
      distinct_ids_addChildRecursive(1) [OF assms(1)]
    by (simp add: new_leaf_def)
qed

theorem addChild_appends_one_witness:
  "distinct (ids one_button) \<and> findNode (js ''root'') one_button = Some one_button \<and>
   length (children one_button) = 1 \<and>
   childId 1700000000250 (js ''0.z8w1c4v6bn2'') \<notin> set (ids one_button) \<and>
   one_appended (js ''root'') (childId 1700000000250 (js ''0.z8w1c4v6bn2'')) one_button
     two_buttons \<and>
   findNode (js ''root'') two_buttons =
     Some (Node (js ''root'') (js ''Start'')
       [first_button,
        Node (js ''node-1700000000250-z8w1c4v6b'') (js ''Button 2'') [] False True]
       False True) \<and>
   distinct (ids two_buttons)"
proof -
  have d: "distinct (ids one_button)" by (simp add: one_button_eq js_def)
  have f: "findNode (js ''root'') one_button = Some one_button" by (simp add: one_button_eq)
  have c: "childId 1700000000250 (js ''0.z8w1c4v6bn2'') = js ''node-1700000000250-z8w1c4v6b''"
    by (simp add: childId_def number_toString.simps js_def digit_def)
  have n: "js ''node-1700000000250-z8w1c4v6b'' \<notin> set (ids one_button)"
    by (simp add: one_button_eq js_def)
  have b: "js ''Button '' @ number_toString (Suc (Suc 0)) = js ''Button 2''"
    by (simp add: number_toString.simps js_def digit_def)
  have fields: "children one_button = [first_button]" "id_n one_button = js ''root''"
    "name one_button = js ''Start''" "\<not> isEditing one_button" "childrenVisible one_button"
    by (simp_all add: one_button_eq first_button_def)
  from addChild_appends_one [OF d f, of 1700000000250 "js ''0.z8w1c4v6bn2''"
      1700000000250 "js ''0.z8w1c4v6bn2''"]
  show ?thesis
    using d f n unfolding two_buttons_def [symmetric] c by (simp add: b fields)
qed

text \<open>
  The id of the new node is not always fresh: a second click with the clock and the random
  string of the first appends a node with the id of the first button.
\<close>

theorem addChild_fresh_id_counterexample:
  "id_n (last (children
      (addChild (js ''root'') 1700000000000 (js ''0.k3j9x2m5qp7'') one_button)))
     \<in> set (ids one_button)"
  by (simp add: one_button_eq addChild_def childId_def number_toString.simps js_def digit_def)

section \<open>Which objects are reused\<close>

lemma erase_updateNodeRecursive_ref:
  "erase (fst (updateNodeRecursive_ref nodeId upd t free)) =
     updateNodeRecursive nodeId (erase_updates upd) (erase t)"
  "map erase (fst (map_updateNodeRecursive_ref nodeId upd cs free)) =
     map (updateNodeRecursive nodeId (erase_updates upd)) (map erase cs)"
  by (induction nodeId upd t free and nodeId upd cs free
      rule: updateNodeRecursive_ref_map_updateNodeRecursive_ref.induct)
     (auto simp: rspread_def spread_def erase_updates_def split: prod.splits option.splits)

lemma erase_addChildRecursive_ref:
  "erase (fst (addChildRecursive_ref parentId cid t free)) =
     addChildRecursive parentId cid (erase t)"
  "map erase (fst (map_addChildRecursive_ref parentId cid cs free)) =
     map (addChildRecursive parentId cid) (map erase cs)"
  by (induction parentId cid t free and parentId cid cs free
      rule: addChildRecursive_ref_map_addChildRecursive_ref.induct)
     (auto split: prod.splits)

lemma free_updateNodeRecursive_ref:
  "free < snd (updateNodeRecursive_ref nodeId upd t free)"
  "free \<le> snd (map_updateNodeRecursive_ref nodeId upd cs free)"
  by (induction nodeId upd t free and nodeId upd cs free
      rule: updateNodeRecursive_ref_map_updateNodeRecursive_ref.induct)
     (auto split: prod.splits)

lemma free_addChildRecursive_ref:
  "free < snd (addChildRecursive_ref parentId cid t free)"
  "free \<le> snd (map_addChildRecursive_ref parentId cid cs free)"
  by (induction parentId cid t free and parentId cid cs free
      rule: addChildRecursive_ref_map_addChildRecursive_ref.induct)
     (auto split: prod.splits)

lemma beneath_subset_refs: "set (beneath i t) \<subseteq> set (refs t)"
  by (induction t) auto

lemma refs_updateNodeRecursive_ref:
  assumes "ru_children upd = None"
  shows "set (refs (fst (updateNodeRecursive_ref nodeId upd t free))) \<subseteq>
           {free ..< snd (updateNodeRecursive_ref nodeId upd t free)} \<union> set (beneath nodeId t)"
    and "set (concat (map refs (fst (map_updateNodeRecursive_ref nodeId upd cs free)))) \<subseteq>
           {free ..< snd (map_updateNodeRecursive_ref nodeId upd cs free)} \<union>
           set (concat (map (beneath nodeId) cs))"
  using assms
proof (induction nodeId upd t free and nodeId upd cs free
    rule: updateNodeRecursive_ref_map_updateNodeRecursive_ref.induct)
  case (1 nodeId upd a i nm cs e v free)
  show ?case
  proof (cases "i = nodeId")
    case True
    with 1(2) show ?thesis by (auto simp: rspread_def)
  next
    case False
    obtain cs' free' where m: "map_updateNodeRecursive_ref nodeId upd cs (Suc free) = (cs', free')"
      by (cases "map_updateNodeRecursive_ref nodeId upd cs (Suc free)")
    from free_updateNodeRecursive_ref(2) [of "Suc free" nodeId upd cs] m
    have "Suc free \<le> free'" by simp
    with 1(1) [OF False 1(2)] False m show ?thesis by auto
  qed
next
  case (2 nodeId upd free)
  show ?case by simp
next
  case (3 nodeId upd c cs free)
  obtain c' free' where h: "updateNodeRecursive_ref nodeId upd c free = (c', free')"
    by (cases "updateNodeRecursive_ref nodeId upd c free")
  obtain cs' free'' where m: "map_updateNodeRecursive_ref nodeId upd cs free' = (cs', free'')"
    by (cases "map_updateNodeRecursive_ref nodeId upd cs free'")
  from free_updateNodeRecursive_ref(1) [of free nodeId upd c] h have "free < free'" by simp
  moreover from free_updateNodeRecursive_ref(2) [of free' nodeId upd cs] m
  have "free' \<le> free''" by simp
  moreover from 3(1) [OF 3(3)] h
  have "set (refs c') \<subseteq> {free ..< free'} \<union> set (beneath nodeId c)" by simp
  moreover from 3(2) [OF h [symmetric] 3(3)] m
  have "set (concat (map refs cs')) \<subseteq> {free' ..< free''} \<union> set (concat (map (beneath nodeId) cs))"
    by simp
  ultimately show ?case using h m by auto
qed

lemma refs_addChildRecursive_ref:
  "set (refs (fst (addChildRecursive_ref parentId cid t free))) \<subseteq>
     {free ..< snd (addChildRecursive_ref parentId cid t free)} \<union> set (beneath parentId t)"
  "set (concat (map refs (fst (map_addChildRecursive_ref parentId cid cs free)))) \<subseteq>
     {free ..< snd (map_addChildRecursive_ref parentId cid cs free)} \<union>
     set (concat (map (beneath parentId) cs))"
proof (induction parentId cid t free and parentId cid cs free
    rule: addChildRecursive_ref_map_addChildRecursive_ref.induct)
  case (1 parentId cid a i nm cs e v free)
  show ?case
  proof (cases "i = parentId")
    case True
    then show ?thesis by auto
  next
    case False
    obtain cs' free' where m: "map_addChildRecursive_ref parentId cid cs (Suc free) = (cs', free')"
      by (cases "map_addChildRecursive_ref parentId cid cs (Suc free)")
    from free_addChildRecursive_ref(2) [of "Suc free" parentId cid cs] m
    have "Suc free \<le> free'" by simp
    with 1 [OF False] False m show ?thesis by auto
  qed
next
  case (2 parentId cid free)
  show ?case by simp
next
  case (3 parentId cid c cs free)
  obtain c' free' where h: "addChildRecursive_ref parentId cid c free = (c', free')"
    by (cases "addChildRecursive_ref parentId cid c free")
  obtain cs' free'' where m: "map_addChildRecursive_ref parentId cid cs free' = (cs', free'')"
    by (cases "map_addChildRecursive_ref parentId cid cs free'")
  from free_addChildRecursive_ref(1) [of free parentId cid c] h have "free < free'" by simp
  moreover from free_addChildRecursive_ref(2) [of free' parentId cid cs] m
  have "free' \<le> free''" by simp
  moreover from 3(1) h
  have "set (refs c') \<subseteq> {free ..< free'} \<union> set (beneath parentId c)" by simp
  moreover from 3(2) [OF h [symmetric]] m
  have "set (concat (map refs cs')) \<subseteq> {free' ..< free''} \<union>
          set (concat (map (beneath parentId) cs))"
    by simp
  ultimately show ?case using h m by auto
qed

lemma beneath_kept_updateNodeRecursive_ref:
  "ru_children upd = None \<Longrightarrow>
     set (beneath nodeId t) \<subseteq> set (refs (fst (updateNodeRecursive_ref nodeId upd t free)))"
  "ru_children upd = None \<Longrightarrow>
     set (concat (map (beneath nodeId) cs)) \<subseteq>
       set (concat (map refs (fst (map_updateNodeRecursive_ref nodeId upd cs free))))"
  by (induction nodeId upd t free and nodeId upd cs free
      rule: updateNodeRecursive_ref_map_updateNodeRecursive_ref.induct)
     (fastforce simp: rspread_def split: prod.splits)+

lemma beneath_kept_addChildRecursive_ref:
  "set (beneath parentId t) \<subseteq> set (refs (fst (addChildRecursive_ref parentId cid t free)))"
  "set (concat (map (beneath parentId) cs)) \<subseteq>
     set (concat (map refs (fst (map_addChildRecursive_ref parentId cid cs free))))"
  by (induction parentId cid t free and parentId cid cs free
      rule: addChildRecursive_ref_map_addChildRecursive_ref.induct)
     (fastforce split: prod.splits)+

lemma reused_objects:
  assumes "\<forall>r \<in> set (refs t). r < free" and "set new \<subseteq> {free ..< free'} \<union> set (beneath i t)"
    and "set (beneath i t) \<subseteq> set new"
  shows "set new \<inter> set (refs t) = set (beneath i t)"
  using assms beneath_subset_refs [of i t] by fastforce

text \<open>
  Claim C1, as amended. Both operations build the tree that \<open>updateNodeRecursive\<close> and
  \<open>addChildRecursive\<close> describe, but they rebuild every node that the search visits. When
  all objects of the old tree lie below the next free address, the objects of the old tree
  that occur in the new tree are exactly those strictly below a node with the id looked
  for: the children of the updated node (for a patch without the field \<^verbatim>\<open>children\<close>),
  the existing children of the parent, and their descendants. Every other node of the new
  tree, on the path from the root or beside it, is a new object with the content of the
  old one.
\<close>

theorem objects_reused:
  assumes "\<forall>r \<in> set (refs t). r < free" and "ru_children upd = None"
  shows "erase (fst (updateNodeRecursive_ref nodeId upd t free)) =
           updateNodeRecursive nodeId (erase_updates upd) (erase t) \<and>
         set (refs (fst (updateNodeRecursive_ref nodeId upd t free))) \<inter> set (refs t) =
           set (beneath nodeId t) \<and>
         erase (fst (addChildRecursive_ref parentId cid t free)) =
           addChildRecursive parentId cid (erase t) \<and>
         set (refs (fst (addChildRecursive_ref parentId cid t free))) \<inter> set (refs t) =
           set (beneath parentId t)"
  using erase_updateNodeRecursive_ref(1) erase_addChildRecursive_ref(1)
    reused_objects [OF assms(1) refs_updateNodeRecursive_ref(1) [OF assms(2)]
      beneath_kept_updateNodeRecursive_ref(1) [OF assms(2)]]
    reused_objects [OF assms(1) refs_addChildRecursive_ref(1) beneath_kept_addChildRecursive_ref(1)]
  by simp

theorem objects_reused_witness:
  "refs family = [0, 1, 3, 2] \<and> list_all (\<lambda>r. r < 4) (refs family) \<and>
   ru_children (no_rupdates\<lparr>ru_isEditing := Some True\<rparr>) = None \<and>
   refs (fst (updateNodeRecursive_ref (js ''a'') (no_rupdates\<lparr>ru_isEditing := Some True\<rparr>)
     family 4)) = [4, 5, 3, 6] \<and>
   refs (fst (addChildRecursive_ref (js ''a'') (js ''node-1-x'') family 4)) = [4, 5, 3, 6, 7] \<and>
   set (beneath (js ''a'') family) = {3} \<and>
   set (refs (fst (updateNodeRecursive_ref (js ''a'') (no_rupdates\<lparr>ru_isEditing := Some True\<rparr>)
     family 4))) \<inter> set (refs family) = {3} \<and>
   set (refs (fst (addChildRecursive_ref (js ''a'') (js ''node-1-x'') family 4)))
     \<inter> set (refs family) = {3}"
proof -
  have b: "\<forall>r \<in> set (refs family). r < 4" by (simp add: family_def)
  have n: "ru_children (no_rupdates\<lparr>ru_isEditing := Some True\<rparr>) = None"
    by (simp add: no_rupdates_def)
  have u: "set (beneath (js ''a'') family) = {3}" by (simp add: family_def js_def)
  have r: "refs family = [0, 1, 3, 2]" by (simp add: family_def)
  have r1: "refs (fst (updateNodeRecursive_ref (js ''a'')
      (no_rupdates\<lparr>ru_isEditing := Some True\<rparr>) family 4)) = [4, 5, 3, 6]"
    by (simp add: family_def rspread_def no_rupdates_def js_def)
  have r2: "refs (fst (addChildRecursive_ref (js ''a'') (js ''node-1-x'') family 4))
      = [4, 5, 3, 6, 7]"
    by (simp add: family_def js_def)
  from objects_reused [OF b n, of "js ''a''" "js ''a''" "js ''node-1-x''"]
  show ?thesis
    using b n r1 r2 unfolding u r by simp
qed

text \<open>
  The claim as the specification states it fails: \<open>b\<close>, the object at address 2, is not
  on the path from the root to \<open>a\<close>, and neither an update of \<open>a\<close> nor a new child of
  \<open>a\<close> keeps it; the node \<open>b\<close> of the new tree is another object with the same content.
\<close>

theorem objects_reused_counterexample:
  "ref (r_children family ! 1) = 2 \<and> r_id (r_children family ! 1) = js ''b'' \<and>
   2 \<notin> set (refs (fst (updateNodeRecursive_ref (js ''a'')
           (no_rupdates\<lparr>ru_isEditing := Some True\<rparr>) family 4))) \<and>
   2 \<notin> set (refs (fst (addChildRecursive_ref (js ''a'') (js ''node-1-x'') family 4))) \<and>
   r_children (fst (updateNodeRecursive_ref (js ''a'')
           (no_rupdates\<lparr>ru_isEditing := Some True\<rparr>) family 4)) ! 1 =
     RNode 6 (js ''b'') (js ''Button 2'') [] False True \<and>
   r_children (fst (addChildRecursive_ref (js ''a'') (js ''node-1-x'') family 4)) ! 1 =
     RNode 7 (js ''b'') (js ''Button 2'') [] False True"
  by (simp add: family_def rspread_def no_rupdates_def js_def)

end
